theory Spec2Isabelle
  imports Main "HOL-Library.Word" "HOL-Library.Monad_Syntax"
begin

unbundle bit_operations_syntax

section \<open>Go values: bytes, slices, panics\<close>

text \<open>
  A Go \<open>[]byte\<close> is a list of 8-bit words; a \<open>nil\<close> slice and an empty one both have
  length 0 and hold the same bytes, so both are \<open>[]\<close>. Where the source tells \<open>nil\<close> from a
  slice (the encoders return \<open>nil\<close> for "no output"), the result is an \<open>option\<close>.

  A run-time panic (an index or a slice bound out of range) is not a return value of a Go
  function: it is the result \<open>None\<close> of the option monad that every function reading or
  writing a buffer runs in. The value a function returns is inside \<open>Some\<close>; for a function
  returning \<open>(value, error)\<close> it is a sum, \<open>Inl\<close> the error.
\<close>

type_synonym byte = "8 word"
type_synonym uint16 = "16 word"

text \<open>\<open>b[i]\<close>: panics unless \<open>i < len(b)\<close>.\<close>

definition index :: "byte list \<Rightarrow> nat \<Rightarrow> byte option" where
  "index b i = (if i < length b then Some (b ! i) else None)"

text \<open>\<open>b[lo:]\<close>: panics unless \<open>lo \<le> len(b)\<close>.\<close>

definition slice_from :: "byte list \<Rightarrow> nat \<Rightarrow> byte list option" where
  "slice_from b lo = (if lo \<le> length b then Some (drop lo b) else None)"

text \<open>
  \<open>b[lo:hi]\<close>: Go panics unless \<open>lo \<le> hi \<le> cap(b)\<close>. The model panics already when
  \<open>hi\<close> is beyond \<open>len(b)\<close>, so it panics wherever Go does.
\<close>

definition slice :: "byte list \<Rightarrow> nat \<Rightarrow> nat \<Rightarrow> byte list option" where
  "slice b lo hi = (if lo \<le> hi \<and> hi \<le> length b then Some (take (hi - lo) (drop lo b)) else None)"

text \<open>\<open>make([]byte, n)\<close>: \<open>n\<close> zero bytes.\<close>

definition make_bytes :: "nat \<Rightarrow> byte list" where
  "make_bytes n = replicate n 0"

text \<open>\<open>b[i] = v\<close>: panics unless \<open>i < len(b)\<close>; the result is the buffer after the store.\<close>

definition store :: "byte list \<Rightarrow> nat \<Rightarrow> byte \<Rightarrow> byte list option" where
  "store b i v = (if i < length b then Some (b[i := v]) else None)"

text \<open>
  The built-in \<open>copy(dst, src)\<close> copies \<open>min(len(dst), len(src))\<close> bytes and never panics;
  the result is \<open>dst\<close> after the copy.
\<close>

definition copy :: "byte list \<Rightarrow> byte list \<Rightarrow> byte list" where
  "copy dst src = take (min (length dst) (length src)) src @ drop (min (length dst) (length src)) dst"

text \<open>\<open>copy(b[lo:], src)\<close>: the slice expression panics unless \<open>lo \<le> len(b)\<close>.\<close>

definition copy_at :: "byte list \<Rightarrow> nat \<Rightarrow> byte list \<Rightarrow> byte list option" where
  "copy_at b lo src = (if lo \<le> length b then Some (take lo b @ copy (drop lo b) src) else None)"

text \<open>
  \<open>binary.BigEndian.Uint16(b)\<close>: \<open>_ = b[1]; return uint16(b[1]) | uint16(b[0])<<8\<close>.
\<close>

definition Uint16 :: "byte list \<Rightarrow> uint16 option" where
  "Uint16 b = (if length b < 2 then None
     else Some ((ucast (b ! 1) :: uint16) OR push_bit 8 (ucast (b ! 0) :: uint16)))"

text \<open>
  \<open>binary.BigEndian.PutUint16(b[lo:], v)\<close>: \<open>_ = b[1]; b[0] = byte(v >> 8); b[1] = byte(v)\<close>
  on the slice \<open>b[lo:]\<close>; panics unless \<open>lo + 2 \<le> len(b)\<close>.
\<close>

definition PutUint16_at :: "byte list \<Rightarrow> nat \<Rightarrow> uint16 \<Rightarrow> byte list option" where
  "PutUint16_at b lo v = (if lo + 2 \<le> length b
     then Some (b[lo := (ucast (drop_bit 8 v) :: byte), lo + 1 := (ucast v :: byte)])
     else None)"

section \<open>The session-extra codec (u\_session\_extra.go)\<close>

text \<open>
  Modelled from the spec: the type \<open>ResumeMechanism\<close> and its constants are declared in
  another file of the package. The codec converts it with \<open>uint8(data.ResumeType)\<close> and
  \<open>ResumeMechanism(data[offset])\<close>, so it is a byte here; the spec lists the enumeration
  as Unknown, SessionID, SessionTicket, numbered in that order.
\<close>

type_synonym ResumeMechanism = byte

definition ResumeUnknown :: ResumeMechanism where
  "ResumeUnknown = 0"

definition ResumeSessionID :: ResumeMechanism where
  "ResumeSessionID = 1"

definition ResumeSessionTicket :: ResumeMechanism where
  "ResumeSessionTicket = 2"

definition SessionExtraUTLSData :: uint16 where
  "SessionExtraUTLSData = 0x7001"

definition SessionExtraVersion :: byte where
  "SessionExtraVersion = 0x01"

record UTLSSessionData =
  ResumeType :: ResumeMechanism
  SessionID :: "byte list"

record SessionExtraField =
  ID :: uint16
  Version :: byte
  Data :: "byte list"

text \<open>The errors of the codec, one constructor for each message of the source.\<close>

datatype error =
    UTLSTooShort \<comment> \<open>invalid UTLS session data: too short\<close>
  | UTLSSessionIDIncomplete \<comment> \<open>invalid UTLS session data: session ID incomplete\<close>
  | ExtraTooShort \<comment> \<open>invalid extra data: too short\<close>
  | ExtraCannotReadFieldCount \<comment> \<open>invalid extra data: cannot read field count\<close>
  | FieldHeaderIncomplete nat \<comment> \<open>invalid extra data: field i header incomplete\<close>
  | FieldDataIncomplete nat \<comment> \<open>invalid extra data: field i data incomplete\<close>

text \<open>
  \<open>marshalUTLSSessionData\<close>: the argument is a pointer (\<open>None\<close> is \<open>nil\<close>); the result
  \<open>Some None\<close> is the returned \<open>nil\<close>. \<open>uint16(len(...))\<close> keeps the low 16 bits.
\<close>

definition marshalUTLSSessionData :: "UTLSSessionData option \<Rightarrow> byte list option option" where
  "marshalUTLSSessionData data =
    (case data of
      None \<Rightarrow> Some None
    | Some d \<Rightarrow>
        if ResumeType d = ResumeUnknown \<and> length (SessionID d) = 0 then Some None
        else do {
          let totalLen = 1 + 2 + length (SessionID d);
          let result = make_bytes totalLen;
          let offset = 0;
          result \<leftarrow> store result offset (ResumeType d);
          let offset = offset + 1;
          result \<leftarrow> PutUint16_at result offset (of_nat (length (SessionID d)));
          let offset = offset + 2;
          result \<leftarrow> (if length (SessionID d) > 0 then copy_at result offset (SessionID d)
                     else Some result);
          Some (Some result)
        })"

text \<open>
  \<open>unmarshalUTLSSessionData\<close>: \<open>int(sessionIDLen)\<close> is \<open>unat\<close>; Go's \<open>int\<close> has 64 bits, so
  \<open>offset + int(sessionIDLen)\<close> does not overflow. A session ID of length 0 stays the
  \<open>nil\<close> slice.
\<close>

definition unmarshalUTLSSessionData :: "byte list \<Rightarrow> (error + UTLSSessionData) option" where
  "unmarshalUTLSSessionData data =
    (if length data < 3 then Some (Inl UTLSTooShort)
     else do {
       let offset = 0;
       resumeType \<leftarrow> index data offset;
       let offset = offset + 1;
       rest \<leftarrow> slice_from data offset;
       sessionIDLen \<leftarrow> Uint16 rest;
       let offset = offset + 2;
       if offset + unat sessionIDLen > length data then Some (Inl UTLSSessionIDIncomplete)
       else do {
         sessionID \<leftarrow> (if sessionIDLen > 0
            then do {
              src \<leftarrow> slice data offset (offset + unat sessionIDLen);
              Some (copy (make_bytes (unat sessionIDLen)) src)
            }
            else Some []);
         Some (Inr \<lparr>ResumeType = resumeType, SessionID = sessionID\<rparr>)
       }
     })"

text \<open>
  \<open>marshalSessionExtra\<close>: one field, the UTLS data, in a container of version 1 and field
  count 1.
\<close>

definition marshalSessionExtra :: "UTLSSessionData option \<Rightarrow> byte list option option" where
  "marshalSessionExtra data =
    (case data of
      None \<Rightarrow> Some None
    | Some d \<Rightarrow>
        if ResumeType d = ResumeUnknown \<and> length (SessionID d) = 0 then Some None
        else do {
          utlsDataBytes \<leftarrow> marshalUTLSSessionData data;
          case utlsDataBytes of
            None \<Rightarrow> Some None
          | Some bs \<Rightarrow> do {
              let field = \<lparr>ID = SessionExtraUTLSData, Version = SessionExtraVersion, Data = bs\<rparr>;
              let totalLen = 1 + 2 + 2 + 1 + 2 + length (Data field);
              let result = make_bytes totalLen;
              let offset = 0;
              result \<leftarrow> store result offset SessionExtraVersion;
              let offset = offset + 1;
              result \<leftarrow> PutUint16_at result offset 1;
              let offset = offset + 2;
              result \<leftarrow> PutUint16_at result offset (ID field);
              let offset = offset + 2;
              result \<leftarrow> store result offset (Version field);
              let offset = offset + 1;
              result \<leftarrow> PutUint16_at result offset (of_nat (length (Data field)));
              let offset = offset + 2;
              result \<leftarrow> copy_at result offset (Data field);
              Some (Some result)
            }
        })"

text \<open>
  The loop of \<open>unmarshalSessionExtra\<close>, \<open>for i := uint16(0); i < fieldCount; i++\<close>, from
  its state \<open>(i, offset)\<close>. The counter is a natural number: \<open>i < fieldCount \<le> 65535\<close>
  holds before every increment, so the \<open>uint16\<close> never wraps. \<open>(nil, nil)\<close> is
  \<open>Inr None\<close>.
\<close>

function unmarshalSessionExtra_fields ::
  "byte list \<Rightarrow> nat \<Rightarrow> nat \<Rightarrow> nat \<Rightarrow> (error + UTLSSessionData option) option" where
  "unmarshalSessionExtra_fields extraData fieldCount i offset =
    (if i < fieldCount then
       if offset + 5 > length extraData then Some (Inl (FieldHeaderIncomplete i))
       else do {
         rest \<leftarrow> slice_from extraData offset;
         fieldID \<leftarrow> Uint16 rest;
         let offset = offset + 2;
         fieldVersion \<leftarrow> index extraData offset;
         let offset = offset + 1;
         rest \<leftarrow> slice_from extraData offset;
         dataLength \<leftarrow> Uint16 rest;
         let offset = offset + 2;
         if offset + unat dataLength > length extraData then Some (Inl (FieldDataIncomplete i))
         else do {
           fieldData \<leftarrow> slice extraData offset (offset + unat dataLength);
           let offset = offset + unat dataLength;
           if fieldVersion = SessionExtraVersion \<and> fieldID = SessionExtraUTLSData
           then map_option (map_sum id Some) (unmarshalUTLSSessionData fieldData)
           else unmarshalSessionExtra_fields extraData fieldCount (i + 1) offset
         }
       }
     else Some (Inr None))"
  by pat_completeness auto
termination
  by (relation "measure (\<lambda>(extraData, fieldCount, i, offset). fieldCount - i)") auto

declare unmarshalSessionExtra_fields.simps [simp del]

definition unmarshalSessionExtra :: "byte list \<Rightarrow> (error + UTLSSessionData option) option" where
  "unmarshalSessionExtra extraData =
    (if length extraData = 0 then Some (Inr None)
     else if length extraData < 3 then Some (Inl ExtraTooShort)
     else do {
       let offset = 0;
       version \<leftarrow> index extraData offset;
       let offset = offset + 1;
       if version \<noteq> SessionExtraVersion then Some (Inr None)
       else if offset + 2 > length extraData then Some (Inl ExtraCannotReadFieldCount)
       else do {
         rest \<leftarrow> slice_from extraData offset;
         fieldCount \<leftarrow> Uint16 rest;
         let offset = offset + 2;
         unmarshalSessionExtra_fields extraData (unat fieldCount) 0 offset
       }
     })"

subsection \<open>The operations on a session state\<close>

text \<open>
  Of \<open>SessionState\<close> (declared in another file of the package) the codec reads and writes the
  field \<open>Extra [][]byte\<close> only; the other fields are the extension of the record, which
  no operation touches. The operations take a non-nil \<open>*SessionState\<close>.
\<close>

record SessionState =
  Extra :: "byte list list"

text \<open>The test of the three loops: \<open>len(extraItem) >= 1 && extraItem[0] == SessionExtraVersion\<close>.\<close>

definition owned :: "byte list \<Rightarrow> bool" where
  "owned extraItem = (length extraItem \<ge> 1 \<and> extraItem ! 0 = SessionExtraVersion)"

fun HasSessionExtra_loop :: "byte list list \<Rightarrow> bool" where
  "HasSessionExtra_loop [] = False"
| "HasSessionExtra_loop (extraItem # rest) =
     (if length extraItem \<ge> 1 \<and> extraItem ! 0 = SessionExtraVersion then True
      else HasSessionExtra_loop rest)"

definition HasSessionExtra :: "'a SessionState_scheme \<Rightarrow> bool" where
  "HasSessionExtra s = (if length (Extra s) = 0 then False else HasSessionExtra_loop (Extra s))"

fun GetSessionExtraFields_loop :: "byte list list \<Rightarrow> UTLSSessionData option option" where
  "GetSessionExtraFields_loop [] = Some None"
| "GetSessionExtraFields_loop (extraItem # rest) =
     (if length extraItem \<ge> 1 \<and> extraItem ! 0 = SessionExtraVersion then
        do {
          r \<leftarrow> unmarshalSessionExtra extraItem;
          case r of
            Inl err \<Rightarrow> GetSessionExtraFields_loop rest
          | Inr utlsData \<Rightarrow> Some utlsData
        }
      else GetSessionExtraFields_loop rest)"

definition GetSessionExtraFields :: "'a SessionState_scheme \<Rightarrow> UTLSSessionData option option" where
  "GetSessionExtraFields s =
     (if \<not> HasSessionExtra s then Some None else GetSessionExtraFields_loop (Extra s))"

text \<open>
  \<open>ClearSessionExtraFields\<close>: the loop appends to \<open>newExtra\<close> every item with
  \<open>len(extraItem) == 0 || extraItem[0] != SessionExtraVersion\<close>.
\<close>

fun ClearSessionExtraFields_loop :: "byte list list \<Rightarrow> byte list list \<Rightarrow> byte list list" where
  "ClearSessionExtraFields_loop newExtra [] = newExtra"
| "ClearSessionExtraFields_loop newExtra (extraItem # rest) =
     (if length extraItem = 0 \<or> extraItem ! 0 \<noteq> SessionExtraVersion
      then ClearSessionExtraFields_loop (newExtra @ [extraItem]) rest
      else ClearSessionExtraFields_loop newExtra rest)"

definition ClearSessionExtraFields :: "'a SessionState_scheme \<Rightarrow> 'a SessionState_scheme" where
  "ClearSessionExtraFields s = s\<lparr>Extra := ClearSessionExtraFields_loop [] (Extra s)\<rparr>"

definition SetSessionExtraFields ::
  "'a SessionState_scheme \<Rightarrow> UTLSSessionData option \<Rightarrow> 'a SessionState_scheme option" where
  "SetSessionExtraFields s data =
     do {
       extraData \<leftarrow> marshalSessionExtra data;
       case extraData of
         None \<Rightarrow> Some (ClearSessionExtraFields s)
       | Some bs \<Rightarrow> do {
           let s = ClearSessionExtraFields s;
           Some (s\<lparr>Extra := Extra s @ [bs]\<rparr>)
         }
     }"

subsection \<open>The wire format\<close>

text \<open>
  The format as the comments of the source give it: a \<open>uint16\<close> is two bytes, high byte
  first; a field is \<open>field_id(2) || field_version(1) || data_length(2) || data\<close>; a
  container is \<open>version(1) || field_count(2) || fields\<close>. These definitions state the
  theorems; no operation of the codec is defined by them.
\<close>

definition be16 :: "uint16 \<Rightarrow> byte list" where
  "be16 v = [ucast (drop_bit 8 v), ucast v]"

definition encode_field :: "SessionExtraField \<Rightarrow> byte list" where
  "encode_field f = be16 (ID f) @ [Version f] @ be16 (of_nat (length (Data f))) @ Data f"

definition encode_fields :: "SessionExtraField list \<Rightarrow> byte list" where
  "encode_fields fs = concat (map encode_field fs)"

text \<open>The field the decoder stops at: the known id in the known field version.\<close>

definition recognized :: "SessionExtraField \<Rightarrow> bool" where
  "recognized f = (Version f = SessionExtraVersion \<and> ID f = SessionExtraUTLSData)"

text \<open>A field the decoder walks over: not recognized, its data within the 16-bit length.\<close>

definition skippable :: "SessionExtraField \<Rightarrow> bool" where
  "skippable f = (\<not> recognized f \<and> length (Data f) \<le> 65535)"

text \<open>The 16-bit number the decoder reads at an offset of a buffer long enough.\<close>

definition u16_at :: "byte list \<Rightarrow> nat \<Rightarrow> uint16" where
  "u16_at b lo = (ucast (b ! (lo + 1)) :: uint16) OR push_bit 8 (ucast (b ! lo) :: uint16)"

text \<open>The session-ID length a payload declares in its bytes 1 and 2, as a number.\<close>

definition declared_length :: "byte list \<Rightarrow> nat" where
  "declared_length b = 256 * unat (b ! 1) + unat (b ! 2)"

subsection \<open>The payload decoder over a store\<close>

text \<open>
  Whether the returned session ID shares memory with the input is a question about backing
  arrays, so here the decoder runs on a store: a slice value is \<open>nil\<close> or names a backing
  array, an offset into it and a length; \<open>make\<close> allocates a fresh array and \<open>copy\<close>
  writes into the array of its destination. The capacity of a slice is left out: a slice
  expression beyond the length panics in the model.
\<close>

record heap =
  arrays :: "nat \<Rightarrow> byte list"
  next_array :: nat

datatype slice_val = NilSlice | Slice nat nat nat

fun bytes_of :: "heap \<Rightarrow> slice_val \<Rightarrow> byte list" where
  "bytes_of h NilSlice = []"
| "bytes_of h (Slice a off n) = take n (drop off (arrays h a))"

fun len :: "slice_val \<Rightarrow> nat" where
  "len NilSlice = 0"
| "len (Slice a off n) = n"

text \<open>A slice of the store: its array is allocated and holds the slice's range.\<close>

fun valid_slice :: "heap \<Rightarrow> slice_val \<Rightarrow> bool" where
  "valid_slice h NilSlice = True"
| "valid_slice h (Slice a off n) = (a < next_array h \<and> off + n \<le> length (arrays h a))"

text \<open>The slices that share no backing array.\<close>

fun disjoint_arrays :: "slice_val \<Rightarrow> slice_val \<Rightarrow> bool" where
  "disjoint_arrays (Slice a off n) (Slice a' off' n') = (a \<noteq> a')"
| "disjoint_arrays s t = True"

text \<open>Any write into the backing array of a slice: the array's contents replaced.\<close>

fun overwrite :: "heap \<Rightarrow> slice_val \<Rightarrow> byte list \<Rightarrow> heap" where
  "overwrite h NilSlice bs = h"
| "overwrite h (Slice a off n) bs = h\<lparr>arrays := (arrays h)(a := bs)\<rparr>"

definition make_h :: "heap \<Rightarrow> nat \<Rightarrow> slice_val \<times> heap" where
  "make_h h n = (Slice (next_array h) 0 n,
     h\<lparr>arrays := (arrays h)(next_array h := replicate n 0), next_array := Suc (next_array h)\<rparr>)"

fun slice_h :: "slice_val \<Rightarrow> nat \<Rightarrow> nat \<Rightarrow> slice_val option" where
  "slice_h NilSlice lo hi = (if lo = 0 \<and> hi = 0 then Some NilSlice else None)"
| "slice_h (Slice a off n) lo hi = (if lo \<le> hi \<and> hi \<le> n then Some (Slice a (off + lo) (hi - lo)) else None)"

fun copy_h :: "heap \<Rightarrow> slice_val \<Rightarrow> slice_val \<Rightarrow> heap" where
  "copy_h h NilSlice src = h"
| "copy_h h (Slice a off n) src =
     h\<lparr>arrays := (arrays h)(a :=
        take off (arrays h a)
        @ take (min n (len src)) (bytes_of h src)
        @ drop (off + min n (len src)) (arrays h a))\<rparr>"

record UTLSSessionData_h =
  ResumeType_h :: ResumeMechanism
  SessionID_h :: slice_val

definition unmarshalUTLSSessionData_h ::
  "heap \<Rightarrow> slice_val \<Rightarrow> ((error + UTLSSessionData_h) \<times> heap) option" where
  "unmarshalUTLSSessionData_h h data =
    (if len data < 3 then Some (Inl UTLSTooShort, h)
     else do {
       let offset = 0;
       resumeType \<leftarrow> index (bytes_of h data) offset;
       let offset = offset + 1;
       rest \<leftarrow> slice_h data offset (len data);
       sessionIDLen \<leftarrow> Uint16 (bytes_of h rest);
       let offset = offset + 2;
       if offset + unat sessionIDLen > len data then Some (Inl UTLSSessionIDIncomplete, h)
       else if sessionIDLen > 0 then do {
         let (sessionID, h) = make_h h (unat sessionIDLen);
         src \<leftarrow> slice_h data offset (offset + unat sessionIDLen);
         let h = copy_h h sessionID src;
         Some (Inr \<lparr>ResumeType_h = resumeType, SessionID_h = sessionID\<rparr>, h)
       }
       else Some (Inr \<lparr>ResumeType_h = resumeType, SessionID_h = NilSlice\<rparr>, h)
     })"

section \<open>The key pool (key\_schedule.go)\<close>

text \<open>
  Modelled from the spec: the type \<open>CurveID\<close> and its constants are declared in another
  file of the package. The two \<open>switch\<close> statements on a curve ID have the cases \<open>X25519\<close>,
  \<open>CurveP256\<close>, \<open>CurveP384\<close>, \<open>CurveP521\<close> and \<open>default\<close>: a curve ID is one of the
  four constants or another 16-bit identifier (\<open>OtherCurve\<close>, any value that is none of the
  four). \<open>Curve\<close> holds the four values of \<open>ecdh.Curve\<close> the file names.
\<close>

datatype CurveID = X25519 | CurveP256 | CurveP384 | CurveP521 | OtherCurve uint16

datatype Curve = ecdh_X25519 | ecdh_P256 | ecdh_P384 | ecdh_P521

datatype key_error =
    UnsupportedCurve \<comment> \<open>tls: internal error: unsupported curve\<close>
  | GenerateKeyError \<comment> \<open>the error of a failed \<open>curve.GenerateKey\<close>\<close>

text \<open>
  A \<open>*ecdh.PrivateKey\<close> is \<open>'k option\<close>, \<open>None\<close> the \<open>nil\<close> pointer. A cache holds its
  slots and the flag \<open>initialized\<close>; the four global caches are named by \<open>cache_ref\<close>, the
  pointers \<open>getCacheForCurveID\<close> returns, and the state of the program is the cache
  behind each. The model is sequential: one call runs at a time.
\<close>

record 'k keyCache =
  keys :: "'k option list"
  initialized :: bool

definition keyCacheSize :: nat where
  "keyCacheSize = 100"

datatype cache_ref = keyCacheX25519 | keyCacheP256 | keyCacheP384 | keyCacheP521

type_synonym 'k globals = "cache_ref \<Rightarrow> 'k keyCache"

text \<open>
  What the file consumes from outside, as the inputs of a call: the outcome of each
  \<open>curve.GenerateKey(cryptorand.Reader)\<close> of a pool fill, by curve and loop index
  (\<open>None\<close> an error); the outcome of \<open>curve.GenerateKey(rand)\<close> on the caller's reader,
  a key or an error; and the number \<open>mathrand.IntN\<close> draws, reduced to \<open>[0, n)\<close>.
\<close>

record 'k world =
  pool_GenerateKey :: "Curve \<Rightarrow> nat \<Rightarrow> 'k option"
  GenerateKey :: "Curve \<Rightarrow> key_error + 'k"
  IntN_draw :: nat

definition IntN :: "'k world \<Rightarrow> nat \<Rightarrow> nat" where
  "IntN w n = IntN_draw w mod n"

text \<open>The loop of \<open>init\<close>: a failed generation leaves the slot \<open>nil\<close>.\<close>

function init_loop :: "(nat \<Rightarrow> 'k option) \<Rightarrow> nat \<Rightarrow> 'k option list \<Rightarrow> 'k option list" where
  "init_loop gen i ks =
    (if i < keyCacheSize then
       (case gen i of
          None \<Rightarrow> init_loop gen (i + 1) ks
        | Some key \<Rightarrow> init_loop gen (i + 1) (ks[i := Some key]))
     else ks)"
  by pat_completeness auto
termination
  by (relation "measure (\<lambda>(gen, i, ks). keyCacheSize - i)") auto

declare init_loop.simps [simp del]

definition init :: "'k keyCache \<Rightarrow> (nat \<Rightarrow> 'k option) \<Rightarrow> 'k keyCache" where
  "init kc gen =
    (if initialized kc then kc
     else kc\<lparr>keys := init_loop gen 0 (replicate keyCacheSize None), initialized := True\<rparr>)"

definition getRandomKey :: "'k world \<Rightarrow> 'k keyCache \<Rightarrow> 'k option" where
  "getRandomKey w kc =
    (if \<not> initialized kc \<or> length (keys kc) = 0 then None
     else let idx = IntN w (length (keys kc)) in keys kc ! idx)"

fun getCacheForCurveID :: "CurveID \<Rightarrow> cache_ref option" where
  "getCacheForCurveID X25519 = Some keyCacheX25519"
| "getCacheForCurveID CurveP256 = Some keyCacheP256"
| "getCacheForCurveID CurveP384 = Some keyCacheP384"
| "getCacheForCurveID CurveP521 = Some keyCacheP521"
| "getCacheForCurveID (OtherCurve x) = None"

fun curveForCurveID :: "CurveID \<Rightarrow> Curve option" where
  "curveForCurveID X25519 = Some ecdh_X25519"
| "curveForCurveID CurveP256 = Some ecdh_P256"
| "curveForCurveID CurveP384 = Some ecdh_P384"
| "curveForCurveID CurveP521 = Some ecdh_P521"
| "curveForCurveID (OtherCurve x) = None"

text \<open>
  \<open>generateECDHEKey\<close> returns the pair \<open>(key, err)\<close> and leaves the caches in a new state.
  The fallback is the end of the function, from \<open>curve, ok := curveForCurveID(curveID)\<close>.
\<close>

definition generateECDHEKey_fallback ::
  "'k world \<Rightarrow> CurveID \<Rightarrow> 'k option \<times> key_error option" where
  "generateECDHEKey_fallback w curveID =
    (case curveForCurveID curveID of
       None \<Rightarrow> (None, Some UnsupportedCurve)
     | Some curve \<Rightarrow>
         (case GenerateKey w curve of
            Inl err \<Rightarrow> (None, Some err)
          | Inr key \<Rightarrow> (Some key, None)))"

definition generateECDHEKey ::
  "'k world \<Rightarrow> 'k globals \<Rightarrow> CurveID \<Rightarrow> ('k option \<times> key_error option) \<times> 'k globals" where
  "generateECDHEKey w g curveID =
    (case getCacheForCurveID curveID of
       Some cache \<Rightarrow>
         let g = (if \<not> initialized (g cache) then
                    (case curveForCurveID curveID of
                       Some curve \<Rightarrow> g(cache := init (g cache) (pool_GenerateKey w curve))
                     | None \<Rightarrow> g)
                  else g)
         in (case getRandomKey w (g cache) of
               Some key \<Rightarrow> ((Some key, None), g)
             | None \<Rightarrow> (generateECDHEKey_fallback w curveID, g))
     | None \<Rightarrow> (generateECDHEKey_fallback w curveID, g))"

definition InitAllKeyCaches :: "'k world \<Rightarrow> 'k globals \<Rightarrow> 'k globals" where
  "InitAllKeyCaches w g =
    (let g = g(keyCacheX25519 := init (g keyCacheX25519) (pool_GenerateKey w ecdh_X25519));
         g = g(keyCacheP256 := init (g keyCacheP256) (pool_GenerateKey w ecdh_P256));
         g = g(keyCacheP384 := init (g keyCacheP384) (pool_GenerateKey w ecdh_P384));
         g = g(keyCacheP521 := init (g keyCacheP521) (pool_GenerateKey w ecdh_P521))
     in g)"

section \<open>The key schedule (key\_schedule.go)\<close>

text \<open>
  The three derivations call primitives of other packages: \<open>tls13.ExpandLabel\<close>, the HMAC
  of \<open>crypto/hmac\<close> (\<open>hmac.New(h, key)\<close>, one \<open>Write\<close>, \<open>Sum(nil)\<close>), the size of a hash
  and the digest \<open>Sum(nil)\<close> of a running transcript hash; \<open>aeadNonceLength\<close> is a
  constant of another file. They are the parameters of the model. Of \<open>cipherSuiteTLS13\<close>
  the derivations read the hash and the key length. A \<open>nil\<close> context is \<open>[]\<close>.
\<close>

record 'h cipherSuiteTLS13 =
  hash :: 'h
  keyLen :: int

record ('h, 't) primitives =
  ExpandLabel :: "'h \<Rightarrow> byte list \<Rightarrow> string \<Rightarrow> byte list \<Rightarrow> int \<Rightarrow> byte list"
  HMAC :: "'h \<Rightarrow> byte list \<Rightarrow> byte list \<Rightarrow> byte list"
  hash_Size :: "'h \<Rightarrow> int"
  transcript_Sum :: "'t \<Rightarrow> byte list"
  aeadNonceLength :: int

definition nextTrafficSecret ::
  "('h, 't) primitives \<Rightarrow> 'h cipherSuiteTLS13 \<Rightarrow> byte list \<Rightarrow> byte list" where
  "nextTrafficSecret P c trafficSecret =
     ExpandLabel P (hash c) trafficSecret ''traffic upd'' [] (hash_Size P (hash c))"

definition trafficKey ::
  "('h, 't) primitives \<Rightarrow> 'h cipherSuiteTLS13 \<Rightarrow> byte list \<Rightarrow> byte list \<times> byte list" where
  "trafficKey P c trafficSecret =
     (let key = ExpandLabel P (hash c) trafficSecret ''key'' [] (keyLen c);
          iv = ExpandLabel P (hash c) trafficSecret ''iv'' [] (aeadNonceLength P)
      in (key, iv))"

definition finishedHash ::
  "('h, 't) primitives \<Rightarrow> 'h cipherSuiteTLS13 \<Rightarrow> byte list \<Rightarrow> 't \<Rightarrow> byte list" where
  "finishedHash P c baseKey transcript =
     (let finishedKey = ExpandLabel P (hash c) baseKey ''finished'' [] (hash_Size P (hash c));
          verifyData = HMAC P (hash c) finishedKey (transcript_Sum P transcript)
      in verifyData)"

section \<open>Properties\<close>

subsection \<open>Big-endian numbers\<close>

lemma length_be16 [simp]: "length (be16 v) = 2"
  by (simp add: be16_def)

lemma Uint16_be: "Uint16 ((ucast (drop_bit 8 v) :: byte) # (ucast v :: byte) # rest) = Some (v::uint16)"
  unfolding Uint16_def
  apply simp
  apply (rule bit_word_eqI)
  apply (auto simp: bit_simps)
  done

lemma Uint16_be16 [simp]: "Uint16 (be16 v @ rest) = Some v"
  by (simp add: be16_def Uint16_be)

lemma unat_of_nat_len: "n \<le> 65535 \<Longrightarrow> unat (of_nat n :: uint16) = n"
  by (simp add: unat_of_nat)

lemma Uint16_drop: "lo + 2 \<le> length b \<Longrightarrow> Uint16 (drop lo b) = Some (u16_at b lo)"
  by (simp add: Uint16_def u16_at_def add.commute)

subsection \<open>The decoders as case distinctions\<close>

lemma unmarshalUTLSSessionData_unfold:
  "unmarshalUTLSSessionData data =
    (if length data < 3 then Some (Inl UTLSTooShort)
     else if 3 + unat (u16_at data 1) > length data then Some (Inl UTLSSessionIDIncomplete)
     else Some (Inr \<lparr>ResumeType = data ! 0,
                    SessionID = take (unat (u16_at data 1)) (drop 3 data)\<rparr>))"
proof (cases "length data < 3")
  case True
  then show ?thesis by (simp add: unmarshalUTLSSessionData_def)
next
  case False
  then have u: "Uint16 (drop 1 data) = Some (u16_at data 1)"
    by (intro Uint16_drop) simp
  have z: "\<not> 0 < u16_at data 1 \<Longrightarrow> unat (u16_at data 1) = 0"
    by (simp add: word_greater_zero_iff)
  from False have ne: "data \<noteq> []" by auto
  show ?thesis using False u z ne
    by (auto simp add: unmarshalUTLSSessionData_def index_def slice_from_def slice_def
          copy_def make_bytes_def numeral_3_eq_3)
qed

lemma fields_step:
  assumes "i < fieldCount" "offset + 5 \<le> length b"
  shows "unmarshalSessionExtra_fields b fieldCount i offset =
    (if offset + 5 + unat (u16_at b (offset + 3)) > length b
     then Some (Inl (FieldDataIncomplete i))
     else if b ! (offset + 2) = SessionExtraVersion \<and> u16_at b offset = SessionExtraUTLSData
     then map_option (map_sum id Some)
        (unmarshalUTLSSessionData (take (unat (u16_at b (offset + 3))) (drop (offset + 5) b)))
     else unmarshalSessionExtra_fields b fieldCount (i + 1)
        (offset + 5 + unat (u16_at b (offset + 3))))"
proof -
  have e3: "offset + 2 + 1 = offset + 3" by simp
  have u1: "Uint16 (drop offset b) = Some (u16_at b offset)"
    using assms by (intro Uint16_drop) simp
  have u2: "Uint16 (drop (offset + 2 + 1) b) = Some (u16_at b (offset + 3))"
    unfolding e3 using assms by (intro Uint16_drop) simp
  have s1: "slice_from b offset = Some (drop offset b)"
    using assms by (simp add: slice_from_def)
  have s2: "slice_from b (offset + 2 + 1) = Some (drop (offset + 2 + 1) b)"
    using assms by (simp add: slice_from_def)
  have ix: "index b (offset + 2) = Some (b ! (offset + 2))"
    using assms by (simp add: index_def)
  have e: "offset + 2 + 1 + 2 = offset + 5" by simp
  show ?thesis
    apply (subst unmarshalSessionExtra_fields.simps)
    apply (simp only: s1 s2 ix u1 u2 Let_def bind.bind_lunit e)
    using assms apply (simp add: slice_def)
    done
qed

lemma fields_done: "\<not> i < fieldCount \<Longrightarrow> unmarshalSessionExtra_fields b fieldCount i offset = Some (Inr None)"
  by (subst unmarshalSessionExtra_fields.simps) simp

lemma fields_header: "i < fieldCount \<Longrightarrow> offset + 5 > length b \<Longrightarrow>
   unmarshalSessionExtra_fields b fieldCount i offset = Some (Inl (FieldHeaderIncomplete i))"
  by (subst unmarshalSessionExtra_fields.simps) simp

lemma unmarshalSessionExtra_unfold:
  "unmarshalSessionExtra b =
    (if length b = 0 then Some (Inr None)
     else if length b < 3 then Some (Inl ExtraTooShort)
     else if b ! 0 \<noteq> SessionExtraVersion then Some (Inr None)
     else unmarshalSessionExtra_fields b (unat (u16_at b 1)) 0 3)"
proof (cases "length b < 3")
  case True
  then show ?thesis by (simp add: unmarshalSessionExtra_def)
next
  case False
  then have u: "Uint16 (drop 1 b) = Some (u16_at b 1)"
    by (intro Uint16_drop) simp
  from False have ne: "b \<noteq> []" by auto
  show ?thesis using False u ne
    by (auto simp add: unmarshalSessionExtra_def index_def slice_from_def numeral_3_eq_3)
qed

subsection \<open>The decoders do not panic\<close>

lemma unmarshalUTLSSessionData_no_panic: "unmarshalUTLSSessionData data \<noteq> None"
  by (simp add: unmarshalUTLSSessionData_unfold)

lemma fields_no_panic: "unmarshalSessionExtra_fields b fieldCount i offset \<noteq> None"
proof (induction b fieldCount i offset rule: unmarshalSessionExtra_fields.induct)
  case (1 b fieldCount i offset)
  show ?case
  proof (cases "i < fieldCount")
    case False
    then show ?thesis by (simp add: fields_done)
  next
    case lt: True
    show ?thesis
    proof (cases "offset + 5 \<le> length b")
      case False
      with lt show ?thesis by (simp add: fields_header)
    next
      case True
      have e3: "offset + 2 + 1 = offset + 3" by simp
      have s1: "slice_from b offset = Some (drop offset b)"
        using True by (simp add: slice_from_def)
      have s2: "slice_from b (offset + 2 + 1) = Some (drop (offset + 2 + 1) b)"
        using True by (simp add: slice_from_def)
      have u1: "Uint16 (drop offset b) = Some (u16_at b offset)"
        using True by (intro Uint16_drop) simp
      have u2: "Uint16 (drop (offset + 2 + 1) b) = Some (u16_at b (offset + 3))"
        unfolding e3 using True by (intro Uint16_drop) simp
      have ix: "index b (offset + 2) = Some (b ! (offset + 2))"
        using True by (simp add: index_def)
      show ?thesis
      proof (cases "offset + 5 + unat (u16_at b (offset + 3)) > length b")
        case True
        with lt \<open>offset + 5 \<le> length b\<close> show ?thesis by (simp add: fields_step)
      next
        case fits: False
        have sl: "slice b (offset + 2 + 1 + 2) (offset + 2 + 1 + 2 + unat (u16_at b (offset + 3)))
            = Some (take (unat (u16_at b (offset + 3))) (drop (offset + 2 + 1 + 2) b))"
          using fits by (simp add: slice_def)
        show ?thesis
        proof (cases "b ! (offset + 2) = SessionExtraVersion \<and> u16_at b offset = SessionExtraUTLSData")
          case True
          with lt fits \<open>offset + 5 \<le> length b\<close> show ?thesis
            by (simp add: fields_step unmarshalUTLSSessionData_no_panic)
        next
          case nrec: False
          have e: "offset + 2 + 1 + 2 + unat (u16_at b (offset + 3))
              = offset + 5 + unat (u16_at b (offset + 3))" by simp
          have "unmarshalSessionExtra_fields b fieldCount (i + 1)
                (offset + 2 + 1 + 2 + unat (u16_at b (offset + 3))) \<noteq> None"
            using fits True
            by (intro "1.IH" [OF lt _ s1 u1 refl ix refl s2 u2 refl _ sl refl nrec]) simp_all
          then have ih: "unmarshalSessionExtra_fields b fieldCount (i + 1)
                (offset + 5 + unat (u16_at b (offset + 3))) \<noteq> None"
            unfolding e .
          have "unmarshalSessionExtra_fields b fieldCount i offset =
              unmarshalSessionExtra_fields b fieldCount (i + 1)
                (offset + 5 + unat (u16_at b (offset + 3)))"
            using fits nrec by (auto simp add: fields_step [OF lt True])
          then show ?thesis using ih by simp
        qed
      qed
    qed
  qed
qed

lemma unmarshalSessionExtra_no_panic: "unmarshalSessionExtra extraData \<noteq> None"
  using fields_no_panic [of extraData "unat (u16_at extraData 1)" 0 3]
  by (simp add: unmarshalSessionExtra_unfold)


subsection \<open>The loop over well-formed fields\<close>

lemma u16_at_append: "u16_at (pre @ be16 v @ rest) (length pre) = v"
proof -
  have "Uint16 (drop (length pre) (pre @ be16 v @ rest)) = Some (u16_at (pre @ be16 v @ rest) (length pre))"
    by (intro Uint16_drop) simp
  then show ?thesis by simp
qed

lemma length_encode_field: "length (encode_field f) = 5 + length (Data f)"
  by (simp add: encode_field_def)

lemma field_reads:
  fixes pre rest f
  defines "b \<equiv> pre @ encode_field f @ rest"
  shows "u16_at b (length pre) = ID f"
    and "b ! (length pre + 2) = Version f"
    and "u16_at b (length pre + 3) = of_nat (length (Data f))"
    and "drop (length pre + 5) b = Data f @ rest"
proof -
  show "u16_at b (length pre) = ID f"
    unfolding b_def encode_field_def using u16_at_append [of pre "ID f"] by simp
  show "b ! (length pre + 2) = Version f"
    unfolding b_def encode_field_def by (simp add: nth_append)
  have "u16_at ((pre @ be16 (ID f) @ [Version f]) @ be16 (of_nat (length (Data f))) @ (Data f @ rest))
      (length (pre @ be16 (ID f) @ [Version f])) = of_nat (length (Data f))"
    by (rule u16_at_append)
  then show "u16_at b (length pre + 3) = of_nat (length (Data f))"
    unfolding b_def encode_field_def by simp
  have "drop (length (pre @ be16 (ID f) @ [Version f] @ be16 (of_nat (length (Data f)))))
      ((pre @ be16 (ID f) @ [Version f] @ be16 (of_nat (length (Data f)))) @ (Data f @ rest)) = Data f @ rest"
    by simp
  then show "drop (length pre + 5) b = Data f @ rest"
    unfolding b_def encode_field_def by simp
qed

lemma fields_skip_one:
  assumes "i < fieldCount" "skippable f"
  shows "unmarshalSessionExtra_fields (pre @ encode_field f @ rest) fieldCount i (length pre) =
     unmarshalSessionExtra_fields (pre @ encode_field f @ rest) fieldCount (i + 1)
       (length pre + length (encode_field f))"
proof -
  let ?b = "pre @ encode_field f @ rest"
  have len: "length pre + 5 \<le> length ?b" by (simp add: length_encode_field)
  have n: "unat (of_nat (length (Data f)) :: uint16) = length (Data f)"
    using assms(2) by (simp add: skippable_def unat_of_nat_len)
  have nrec: "\<not> (Version f = SessionExtraVersion \<and> ID f = SessionExtraUTLSData)"
    using assms(2) by (simp add: skippable_def recognized_def)
  show ?thesis
    unfolding fields_step [OF assms(1) len] field_reads n length_encode_field
    using nrec by (auto simp add: length_encode_field add.assoc)
qed

lemma fields_skip:
  assumes "list_all skippable fs" "i + length fs \<le> fieldCount"
  shows "unmarshalSessionExtra_fields (pre @ encode_fields fs @ rest) fieldCount i (length pre) =
     unmarshalSessionExtra_fields (pre @ encode_fields fs @ rest) fieldCount (i + length fs)
       (length pre + length (encode_fields fs))"
  using assms
proof (induction fs arbitrary: pre i)
  case Nil
  then show ?case by (simp add: encode_fields_def)
next
  case (Cons f fs)
  have b: "pre @ encode_fields (f # fs) @ rest = pre @ encode_field f @ (encode_fields fs @ rest)"
    by (simp add: encode_fields_def)
  have b': "pre @ encode_fields (f # fs) @ rest = (pre @ encode_field f) @ encode_fields fs @ rest"
    by (simp add: encode_fields_def)
  have "unmarshalSessionExtra_fields (pre @ encode_fields (f # fs) @ rest) fieldCount i (length pre)
      = unmarshalSessionExtra_fields (pre @ encode_fields (f # fs) @ rest) fieldCount (i + 1)
          (length pre + length (encode_field f))"
    unfolding b using Cons.prems by (intro fields_skip_one) simp_all
  also have "\<dots> = unmarshalSessionExtra_fields ((pre @ encode_field f) @ encode_fields fs @ rest)
       fieldCount (i + 1) (length (pre @ encode_field f))"
    unfolding b' by simp
  also have "\<dots> = unmarshalSessionExtra_fields ((pre @ encode_field f) @ encode_fields fs @ rest)
       fieldCount (i + 1 + length fs) (length (pre @ encode_field f) + length (encode_fields fs))"
    using Cons.prems by (intro Cons.IH) simp_all
  also have "\<dots> = unmarshalSessionExtra_fields (pre @ encode_fields (f # fs) @ rest) fieldCount
       (i + length (f # fs)) (length pre + length (encode_fields (f # fs)))"
    unfolding b' by (simp add: encode_fields_def add.assoc)
  finally show ?case .
qed

lemma container_walk:
  assumes "list_all skippable fs" "length fs \<le> unat fieldCount"
  shows "unmarshalSessionExtra ([SessionExtraVersion] @ be16 fieldCount @ encode_fields fs @ rest) =
    unmarshalSessionExtra_fields ([SessionExtraVersion] @ be16 fieldCount @ encode_fields fs @ rest)
      (unat fieldCount) (length fs) (3 + length (encode_fields fs))"
proof -
  let ?b = "[SessionExtraVersion] @ be16 fieldCount @ encode_fields fs @ rest"
  have c: "u16_at ?b 1 = fieldCount"
    using u16_at_append [of "[SessionExtraVersion]" fieldCount "encode_fields fs @ rest"] by simp
  have "unmarshalSessionExtra ?b = unmarshalSessionExtra_fields ?b (unat fieldCount) 0 3"
    using c by (simp add: unmarshalSessionExtra_unfold)
  also have "\<dots> = unmarshalSessionExtra_fields
      (([SessionExtraVersion] @ be16 fieldCount) @ encode_fields fs @ rest)
      (unat fieldCount) 0 (length ([SessionExtraVersion] @ be16 fieldCount))"
    by simp
  also have "\<dots> = unmarshalSessionExtra_fields
      (([SessionExtraVersion] @ be16 fieldCount) @ encode_fields fs @ rest)
      (unat fieldCount) (0 + length fs)
      (length ([SessionExtraVersion] @ be16 fieldCount) + length (encode_fields fs))"
    using assms by (intro fields_skip) simp_all
  finally show ?thesis by simp
qed


lemma truncated_walk:
  assumes "list_all skippable fs" "length fs < unat fieldCount"
  shows "(length rest < 5 \<longrightarrow>
      unmarshalSessionExtra ([SessionExtraVersion] @ be16 fieldCount @ encode_fields fs @ rest)
        = Some (Inl (FieldHeaderIncomplete (length fs))))
    \<and> (5 \<le> length rest \<and> length rest < 5 + unat (u16_at rest 3) \<longrightarrow>
      unmarshalSessionExtra ([SessionExtraVersion] @ be16 fieldCount @ encode_fields fs @ rest)
        = Some (Inl (FieldDataIncomplete (length fs))))"
proof -
  let ?pre = "[SessionExtraVersion] @ be16 fieldCount @ encode_fields fs"
  let ?b = "[SessionExtraVersion] @ be16 fieldCount @ encode_fields fs @ rest"
  have w: "unmarshalSessionExtra ?b =
      unmarshalSessionExtra_fields ?b (unat fieldCount) (length fs) (3 + length (encode_fields fs))"
    using assms by (intro container_walk) simp_all
  have lb: "length ?b = 3 + length (encode_fields fs) + length rest" by simp
  have u: "u16_at ?b (3 + length (encode_fields fs) + 3) = u16_at rest 3"
    by (simp add: u16_at_def nth_append)
  show ?thesis
  proof (intro conjI impI)
    assume "length rest < 5"
    then have "3 + length (encode_fields fs) + 5 > length ?b" by simp
    then show "unmarshalSessionExtra ?b = Some (Inl (FieldHeaderIncomplete (length fs)))"
      unfolding w using assms(2) by (intro fields_header)
  next
    assume a: "5 \<le> length rest \<and> length rest < 5 + unat (u16_at rest 3)"
    then have h: "3 + length (encode_fields fs) + 5 \<le> length ?b" by simp
    show "unmarshalSessionExtra ?b = Some (Inl (FieldDataIncomplete (length fs)))"
      unfolding w fields_step [OF assms(2) h] u using a by simp
  qed
qed

lemma complete_walk:
  assumes "list_all skippable fs" "length fs \<le> 65535"
  shows "unmarshalSessionExtra
     ([SessionExtraVersion] @ be16 (of_nat (length fs)) @ encode_fields fs @ rest) = Some (Inr None)"
proof -
  have n: "unat (of_nat (length fs) :: uint16) = length fs"
    using assms(2) by (simp add: unat_of_nat_len)
  show ?thesis
    using assms(1) n by (subst container_walk) (simp_all add: fields_done)
qed

lemma other_version:
  "3 \<le> length b \<Longrightarrow> b ! 0 \<noteq> SessionExtraVersion \<Longrightarrow> unmarshalSessionExtra b = Some (Inr None)"
  by (simp add: unmarshalSessionExtra_unfold)

lemma short_buffer:
  "0 < length b \<Longrightarrow> length b < 3 \<Longrightarrow> unmarshalSessionExtra b = Some (Inl ExtraTooShort)"
  by (simp add: unmarshalSessionExtra_unfold)



subsection \<open>The payload codec\<close>

lemma marshal_bytes:
  "\<not> (ResumeType d = ResumeUnknown \<and> SessionID d = []) \<Longrightarrow>
   marshalUTLSSessionData (Some d) =
     Some (Some (ResumeType d # be16 (of_nat (length (SessionID d))) @ SessionID d))"
  unfolding marshalUTLSSessionData_def be16_def
  by (simp add: make_bytes_def store_def PutUint16_at_def copy_at_def copy_def Let_def)

lemma unmarshal_bytes:
  assumes "length sid \<le> 65535"
  shows "unmarshalUTLSSessionData (rt # be16 (of_nat (length sid)) @ sid)
     = Some (Inr \<lparr>ResumeType = rt, SessionID = sid\<rparr>)"
proof -
  let ?b = "rt # be16 (of_nat (length sid)) @ sid"
  have u: "u16_at ?b 1 = of_nat (length sid)"
    using u16_at_append [of "[rt]" "of_nat (length sid)" sid] by simp
  have n: "unat (of_nat (length sid) :: uint16) = length sid"
    using assms by (simp add: unat_of_nat_len)
  show ?thesis
    unfolding unmarshalUTLSSessionData_unfold u n by simp
qed

text \<open>
  C1, amended. Round trip of the payload codec: for every value that is not logically empty
  (not both \<open>ResumeUnknown\<close> and an empty session ID) and whose session ID has at most
  65535 bytes, the encoder returns bytes and the decoder returns the value from them.
\<close>

theorem C1_roundtrip:
  assumes "\<not> (ResumeType v = ResumeUnknown \<and> SessionID v = [])"
    and "length (SessionID v) \<le> 65535"
  shows "\<exists>bs. marshalUTLSSessionData (Some v) = Some (Some bs)
            \<and> unmarshalUTLSSessionData bs = Some (Inr v)"
proof -
  have "unmarshalUTLSSessionData (ResumeType v # be16 (of_nat (length (SessionID v))) @ SessionID v)
      = Some (Inr \<lparr>ResumeType = ResumeType v, SessionID = SessionID v\<rparr>)"
    using assms(2) by (rule unmarshal_bytes)
  then show ?thesis using marshal_bytes [OF assms(1)] by simp
qed

text \<open>The round trip at the ticket mechanism with a two-byte session ID.\<close>

theorem C1_roundtrip_witness:
  "\<exists>bs. marshalUTLSSessionData (Some \<lparr>ResumeType = ResumeSessionTicket, SessionID = [0xAB, 0xCD]\<rparr>)
           = Some (Some bs)
      \<and> unmarshalUTLSSessionData bs
           = Some (Inr \<lparr>ResumeType = ResumeSessionTicket, SessionID = [0xAB, 0xCD]\<rparr>)"
  using C1_roundtrip [of "\<lparr>ResumeType = ResumeSessionTicket, SessionID = [0xAB, 0xCD]\<rparr>"]
  by (simp add: ResumeSessionTicket_def ResumeUnknown_def)

text \<open>
  C1 as stated covers every resume type and every length from 0: at the logically empty
  value the encoder returns \<open>nil\<close>, and the decoder on no bytes returns the error
  "too short", not the value.
\<close>

theorem C1_empty_value_counterexample:
  "marshalUTLSSessionData (Some \<lparr>ResumeType = ResumeUnknown, SessionID = []\<rparr>) = Some None
   \<and> unmarshalUTLSSessionData [] = Some (Inl UTLSTooShort)"
  by (simp add: marshalUTLSSessionData_def unmarshalUTLSSessionData_def)

subsection \<open>The container decoder\<close>

text \<open>
  C2, amended. Forward compatibility of the container decoder: a buffer of at least three
  bytes whose first byte is not the codec version decodes to \<open>(nil, nil)\<close>; and a
  container of version 1 whose field count is the number of its fields, none of them the
  known id in the known field version (each with at most 65535 bytes of data), decodes to
  \<open>(nil, nil)\<close>, whatever follows the last field.
\<close>

theorem C2_forward_compatible:
  "(3 \<le> length b \<and> b ! 0 \<noteq> SessionExtraVersion \<longrightarrow> unmarshalSessionExtra b = Some (Inr None))
   \<and> (list_all skippable fs \<and> length fs \<le> 65535 \<longrightarrow>
        unmarshalSessionExtra
          ([SessionExtraVersion] @ be16 (of_nat (length fs)) @ encode_fields fs @ trailing)
        = Some (Inr None))"
  using other_version [of b] complete_walk [of fs trailing] by blast

text \<open>
  A container of version 2, and a container of version 1 with an unknown id and with the
  known id in an unknown field version.
\<close>

theorem C2_forward_compatible_witness:
  "unmarshalSessionExtra [0x02, 0x00, 0x00] = Some (Inr None)
   \<and> unmarshalSessionExtra
        ([SessionExtraVersion] @ be16 2
          @ encode_fields [\<lparr>ID = 0x1234, Version = 0x01, Data = [0xFF]\<rparr>,
                           \<lparr>ID = 0x7001, Version = 0x02, Data = []\<rparr>] @ [])
      = Some (Inr None)"
  using C2_forward_compatible [of "[0x02, 0x00, 0x00]"
      "[\<lparr>ID = 0x1234, Version = 0x01, Data = [0xFF]\<rparr>, \<lparr>ID = 0x7001, Version = 0x02, Data = []\<rparr>]" "[]"]
  by (simp add: skippable_def recognized_def SessionExtraVersion_def SessionExtraUTLSData_def)

text \<open>
  C2 as stated covers every non-empty buffer: the length test comes before the version
  test, so the one-byte buffer \<open>0x02\<close> is the error "too short", not \<open>(nil, nil)\<close>.
\<close>

theorem C2_short_buffer_counterexample:
  "unmarshalSessionExtra [0x02] = Some (Inl ExtraTooShort)"
  by (simp add: unmarshalSessionExtra_def)

text \<open>
  C3, amended. Truncation safety of the container decoder: it panics on no input (so it
  reads nothing out of bounds); and in a container of version 1 whose fields before index
  \<open>i\<close> are complete and none of them the known id in the known field version, with
  \<open>i\<close> below the field count, a field \<open>i\<close> with fewer than 5 bytes left for its header
  is the error "field i header incomplete", and a field \<open>i\<close> with a complete header
  declaring more data than the bytes left is the error "field i data incomplete".
\<close>

theorem C3_truncation:
  "unmarshalSessionExtra extraData \<noteq> None
   \<and> (list_all skippable fs \<and> length fs < unat fieldCount \<and> length rest < 5 \<longrightarrow>
        unmarshalSessionExtra ([SessionExtraVersion] @ be16 fieldCount @ encode_fields fs @ rest)
        = Some (Inl (FieldHeaderIncomplete (length fs))))
   \<and> (list_all skippable fs \<and> length fs < unat fieldCount \<and> length partial < unat dataLength \<longrightarrow>
        unmarshalSessionExtra ([SessionExtraVersion] @ be16 fieldCount @ encode_fields fs
           @ be16 fieldID @ [fieldVersion] @ be16 dataLength @ partial)
        = Some (Inl (FieldDataIncomplete (length fs))))"
proof -
  let ?rest = "be16 fieldID @ [fieldVersion] @ be16 dataLength @ partial"
  have "u16_at ((be16 fieldID @ [fieldVersion]) @ be16 dataLength @ partial)
      (length (be16 fieldID @ [fieldVersion])) = dataLength"
    by (rule u16_at_append)
  then have u: "u16_at ?rest 3 = dataLength" by simp
  have l: "length ?rest = 5 + length partial" by simp
  show ?thesis
    using unmarshalSessionExtra_no_panic [of extraData]
      truncated_walk [of fs fieldCount rest] truncated_walk [of fs fieldCount ?rest]
    unfolding u l by simp
qed

text \<open>A second field cut inside its header, and one cut inside its data.\<close>

theorem C3_truncation_witness:
  "unmarshalSessionExtra [0x01, 0x00] \<noteq> None
   \<and> unmarshalSessionExtra ([SessionExtraVersion] @ be16 2
        @ encode_fields [\<lparr>ID = 0x1234, Version = 0x01, Data = [0xFF]\<rparr>] @ [0x70, 0x01, 0x01])
      = Some (Inl (FieldHeaderIncomplete 1))
   \<and> unmarshalSessionExtra ([SessionExtraVersion] @ be16 2
        @ encode_fields [\<lparr>ID = 0x1234, Version = 0x01, Data = [0xFF]\<rparr>]
        @ be16 0x7001 @ [0x01] @ be16 4 @ [0x01, 0x00, 0x01])
      = Some (Inl (FieldDataIncomplete 1))"
  using C3_truncation [of "[0x01, 0x00]" "[\<lparr>ID = 0x1234, Version = 0x01, Data = [0xFF]\<rparr>]"
      2 "[0x70, 0x01, 0x01]" "[0x01, 0x00, 0x01]" 4 "0x7001" "0x01"]
  by (simp add: skippable_def recognized_def SessionExtraVersion_def SessionExtraUTLSData_def)

text \<open>
  C3 as stated covers every buffer with an incomplete field: the decoder returns at the
  first field with the known id and version, so a container of two fields whose first
  field is the UTLS data and whose second has two bytes of header decodes to a value.
\<close>

theorem C3_early_return_counterexample:
  "unmarshalSessionExtra
     ([SessionExtraVersion] @ be16 2
       @ encode_field \<lparr>ID = SessionExtraUTLSData, Version = SessionExtraVersion, Data = [0x01, 0x00, 0x00]\<rparr>
       @ [0xAA, 0xBB])
   = Some (Inr (Some \<lparr>ResumeType = 0x01, SessionID = []\<rparr>))"
  by (simp add: unmarshalSessionExtra_unfold encode_field_def be16_def u16_at_def
      SessionExtraVersion_def SessionExtraUTLSData_def fields_step unmarshalUTLSSessionData_unfold)


subsection \<open>The payload decoder over a store\<close>

lemma be_or_add:
  fixes hi lo :: byte
  shows "(ucast lo :: uint16) OR push_bit 8 (ucast hi :: uint16) = of_nat (256 * unat hi + unat lo)"
proof -
  have d: "(ucast lo :: uint16) AND push_bit 8 (ucast hi :: uint16) = 0"
    by (rule bit_word_eqI) (auto simp: bit_simps dest: bit_imp_le_length)
  have "(ucast lo :: uint16) OR push_bit 8 (ucast hi :: uint16)
      = ucast lo + push_bit 8 (ucast hi :: uint16)"
    using d by (simp add: disjunctive_add_eq_or)
  also have "\<dots> = of_nat (256 * unat hi + unat lo)"
    by (simp add: push_bit_eq_mult)
  finally show ?thesis .
qed

lemma be_unat:
  fixes hi lo :: byte
  shows "unat ((ucast lo :: uint16) OR push_bit 8 (ucast hi :: uint16)) = 256 * unat hi + unat lo"
proof -
  have "unat hi < 256" "unat lo < 256"
    using unsigned_less [of hi] unsigned_less [of lo] by simp_all
  then have "256 * unat hi + unat lo < 65536" by simp
  moreover have "unat (word_of_nat n :: uint16) = n" if "n < 65536" for n
    using that by (simp add: unat_of_nat)
  ultimately show ?thesis
    unfolding be_or_add by blast
qed

lemma declared_length_u16: "declared_length b = unat (u16_at b 1)"
  by (simp add: declared_length_def u16_at_def be_unat numeral_2_eq_2)

lemma length_bytes_of: "valid_slice h s \<Longrightarrow> length (bytes_of h s) = len s"
  by (cases s) auto

lemma unmarshalUTLSSessionData_h_unfold:
  assumes "valid_slice h data"
  shows "unmarshalUTLSSessionData_h h data =
    (if len data < 3 then Some (Inl UTLSTooShort, h)
     else if len data < 3 + declared_length (bytes_of h data)
       then Some (Inl UTLSSessionIDIncomplete, h)
     else if declared_length (bytes_of h data) = 0
       then Some (Inr \<lparr>ResumeType_h = bytes_of h data ! 0, SessionID_h = NilSlice\<rparr>, h)
     else Some (Inr \<lparr>ResumeType_h = bytes_of h data ! 0,
                    SessionID_h = Slice (next_array h) 0 (declared_length (bytes_of h data))\<rparr>,
                h\<lparr>next_array := Suc (next_array h),
                   arrays := (arrays h)(next_array h :=
                      take (declared_length (bytes_of h data)) (drop 3 (bytes_of h data)))\<rparr>))"
proof (cases "len data < 3")
  case True
  then show ?thesis by (simp add: unmarshalUTLSSessionData_h_def)
next
  case False
  then obtain a off n where d: "data = Slice a off n" and n: "3 \<le> n"
    by (cases data) auto
  from assms d have v: "a < next_array h" "off + n \<le> length (arrays h a)" by simp_all
  define bs where "bs = take n (drop off (arrays h a))"
  define D where "D = declared_length bs"
  have lb: "length bs = n" using v by (simp add: bs_def)
  have ix: "index bs 0 = Some (bs ! 0)" using lb n by (simp add: index_def)
  have rest: "take (n - Suc 0) (drop (Suc off) (arrays h a)) = drop (Suc 0) bs"
    by (simp add: bs_def drop_take add.commute)
  have u: "Uint16 (drop (Suc 0) bs) = Some (u16_at bs (Suc 0))"
    using lb n Uint16_drop [of 1 bs] by simp
  have ud: "unat (u16_at bs (Suc 0)) = D"
    using declared_length_u16 [of bs] by (simp add: D_def)
  have z: "(0 < u16_at bs (Suc 0)) = (D \<noteq> 0)"
    unfolding ud [symmetric] by (simp add: word_greater_zero_iff unat_eq_0)
  have src: "take D (drop (Suc (Suc (Suc off))) (arrays h a)) = take D (drop 3 bs)"
    if "\<not> n < 3 + D"
    using that by (simp add: bs_def drop_take add.commute numeral_3_eq_3)
  have ne: "next_array h \<noteq> a" using v by simp
  have b: "bytes_of h (Slice a off n) = bs" by (simp add: bs_def)
  show ?thesis
  proof (cases "n < 3 + D")
    case True
    with n show ?thesis
      unfolding d unmarshalUTLSSessionData_h_def b D_def [symmetric]
      by (simp add: ix rest [unfolded bs_def [symmetric]] u ud Let_def bs_def [symmetric])
  next
    case fits: False
    show ?thesis
    proof (cases "D = 0")
      case True
      with n fits show ?thesis
        unfolding d unmarshalUTLSSessionData_h_def b D_def [symmetric]
        by (simp add: ix rest u ud z Let_def bs_def [symmetric])
    next
      case False
      with n fits ne show ?thesis
        unfolding d unmarshalUTLSSessionData_h_def b D_def [symmetric]
        by (simp add: ix rest u ud z Let_def bs_def [symmetric] make_h_def src)
    qed
  qed
qed


lemma unmarshalUTLSSessionData_h_refines:
  assumes "valid_slice h data"
  shows "map_option (\<lambda>(r, h'). map_sum id
            (\<lambda>v. \<lparr>ResumeType = ResumeType_h v, SessionID = bytes_of h' (SessionID_h v)\<rparr>) r)
          (unmarshalUTLSSessionData_h h data)
        = unmarshalUTLSSessionData (bytes_of h data)"
  unfolding unmarshalUTLSSessionData_h_unfold [OF assms] unmarshalUTLSSessionData_unfold
    length_bytes_of [OF assms] declared_length_u16
  by simp

lemma fresh_slice_stable:
  assumes "valid_slice h data"
  shows "bytes_of (overwrite (h\<lparr>next_array := Suc (next_array h),
            arrays := (arrays h)(next_array h := xs)\<rparr>) data bs) (Slice (next_array h) 0 n)
         = take n xs"
    and "bytes_of (h\<lparr>next_array := Suc (next_array h),
            arrays := (arrays h)(next_array h := xs)\<rparr>) data = bytes_of h data"
    and "disjoint_arrays (Slice (next_array h) 0 n) data"
  using assms by (cases data; simp)+

lemma fresh_array_stable:
  assumes "valid_slice h data"
  shows "arrays (overwrite (h\<lparr>next_array := Suc (next_array h),
            arrays := (arrays h)(next_array h := xs)\<rparr>) data bs) (next_array h) = xs"
  using assms by (cases data) simp_all

text \<open>
  C4. The error contract of the payload decoder, on a store. For an input slice of the
  store: the decoder over the store returns what \<open>unmarshalUTLSSessionData\<close> returns on
  the bytes of the slice; the result is the error "too short" exactly when the input has
  fewer than 3 bytes; with at least 3 bytes and a declared session-ID length beyond the
  bytes after the header, it is the error "incomplete"; otherwise it succeeds with the first
  byte as resume type and the declared number of bytes after the header as session ID, and
  the returned session ID shares no backing array with the input: the input's bytes are as
  before, and no write into the input's array changes the session ID.
\<close>

theorem C4_payload_decoder_contract:
  assumes "valid_slice h data"
  shows "map_option (\<lambda>(r, h'). map_sum id
            (\<lambda>v. \<lparr>ResumeType = ResumeType_h v, SessionID = bytes_of h' (SessionID_h v)\<rparr>) r)
          (unmarshalUTLSSessionData_h h data)
        = unmarshalUTLSSessionData (bytes_of h data)
    \<and> ((unmarshalUTLSSessionData_h h data = Some (Inl UTLSTooShort, h)) = (len data < 3))
    \<and> (3 \<le> len data \<and> len data < 3 + declared_length (bytes_of h data) \<longrightarrow>
         unmarshalUTLSSessionData_h h data = Some (Inl UTLSSessionIDIncomplete, h))
    \<and> (3 \<le> len data \<and> 3 + declared_length (bytes_of h data) \<le> len data \<longrightarrow>
         (\<exists>sid h'. unmarshalUTLSSessionData_h h data
               = Some (Inr \<lparr>ResumeType_h = bytes_of h data ! 0, SessionID_h = sid\<rparr>, h')
            \<and> bytes_of h' sid
               = take (declared_length (bytes_of h data)) (drop 3 (bytes_of h data))
            \<and> disjoint_arrays sid data
            \<and> bytes_of h' data = bytes_of h data
            \<and> (\<forall>bs. bytes_of (overwrite h' data bs) sid = bytes_of h' sid)))"
proof (intro conjI impI)
  show "map_option (\<lambda>(r, h'). map_sum id
            (\<lambda>v. \<lparr>ResumeType = ResumeType_h v, SessionID = bytes_of h' (SessionID_h v)\<rparr>) r)
          (unmarshalUTLSSessionData_h h data)
        = unmarshalUTLSSessionData (bytes_of h data)"
    using assms by (rule unmarshalUTLSSessionData_h_refines)
  show "(unmarshalUTLSSessionData_h h data = Some (Inl UTLSTooShort, h)) = (len data < 3)"
    unfolding unmarshalUTLSSessionData_h_unfold [OF assms] by simp
  show "unmarshalUTLSSessionData_h h data = Some (Inl UTLSSessionIDIncomplete, h)"
    if "3 \<le> len data \<and> len data < 3 + declared_length (bytes_of h data)"
    using that unfolding unmarshalUTLSSessionData_h_unfold [OF assms] by simp
  show "\<exists>sid h'. unmarshalUTLSSessionData_h h data
               = Some (Inr \<lparr>ResumeType_h = bytes_of h data ! 0, SessionID_h = sid\<rparr>, h')
            \<and> bytes_of h' sid
               = take (declared_length (bytes_of h data)) (drop 3 (bytes_of h data))
            \<and> disjoint_arrays sid data
            \<and> bytes_of h' data = bytes_of h data
            \<and> (\<forall>bs. bytes_of (overwrite h' data bs) sid = bytes_of h' sid)"
    if a: "3 \<le> len data \<and> 3 + declared_length (bytes_of h data) \<le> len data"
  proof (cases "declared_length (bytes_of h data) = 0")
    case True
    with a show ?thesis
      unfolding unmarshalUTLSSessionData_h_unfold [OF assms] by simp
  next
    case False
    have l: "length (drop 3 (bytes_of h data)) \<ge> declared_length (bytes_of h data)"
      using a length_bytes_of [OF assms] by (simp del: One_nat_def) arith
    from False a l show ?thesis
      unfolding unmarshalUTLSSessionData_h_unfold [OF assms]
      by (simp add: fresh_slice_stable [OF assms] fresh_array_stable [OF assms])
  qed
qed

text \<open>
  A store of one array, the six bytes of a payload with a two-byte session ID: the decoder
  returns a slice of a new array holding the two bytes.
\<close>

theorem C4_payload_decoder_contract_witness:
  "valid_slice \<lparr>arrays = (\<lambda>a. [])(0 := [0x02, 0x00, 0x02, 0xAA, 0xBB, 0xCC]), next_array = 1\<rparr>
      (Slice 0 0 6)
   \<and> unmarshalUTLSSessionData [0x02, 0x00, 0x02, 0xAA, 0xBB, 0xCC]
      = Some (Inr \<lparr>ResumeType = 0x02, SessionID = [0xAA, 0xBB]\<rparr>)
   \<and> (\<exists>sid h'. unmarshalUTLSSessionData_h
          \<lparr>arrays = (\<lambda>a. [])(0 := [0x02, 0x00, 0x02, 0xAA, 0xBB, 0xCC]), next_array = 1\<rparr>
          (Slice 0 0 6)
         = Some (Inr \<lparr>ResumeType_h = 0x02, SessionID_h = sid\<rparr>, h')
       \<and> bytes_of h' sid = [0xAA, 0xBB]
       \<and> disjoint_arrays sid (Slice 0 0 6))"
  using C4_payload_decoder_contract
    [of "\<lparr>arrays = (\<lambda>a. [])(0 := [0x02, 0x00, 0x02, 0xAA, 0xBB, 0xCC]), next_array = 1\<rparr>"
        "Slice 0 0 6"]
  by (auto simp: declared_length_def)


subsection \<open>The container encoder and the example of the spec\<close>

lemma marshalSessionExtra_bytes:
  assumes "\<not> (ResumeType d = ResumeUnknown \<and> SessionID d = [])"
  shows "marshalSessionExtra (Some d) =
     Some (Some ([SessionExtraVersion] @ be16 1
       @ encode_field \<lparr>ID = SessionExtraUTLSData, Version = SessionExtraVersion,
           Data = ResumeType d # be16 (of_nat (length (SessionID d))) @ SessionID d\<rparr>))"
  using assms unfolding marshalSessionExtra_def encode_field_def
  by (simp add: marshal_bytes)
     (simp add: be16_def make_bytes_def store_def PutUint16_at_def copy_at_def copy_def Let_def)

lemma marshalSessionExtra_cases:
  "marshalSessionExtra data = Some None \<or>
   (\<exists>bs. marshalSessionExtra data = Some (Some (SessionExtraVersion # bs)))"
proof (cases data)
  case None
  then show ?thesis by (simp add: marshalSessionExtra_def)
next
  case (Some d)
  show ?thesis
  proof (cases "ResumeType d = ResumeUnknown \<and> SessionID d = []")
    case True
    with Some show ?thesis by (simp add: marshalSessionExtra_def)
  next
    case False
    then show ?thesis unfolding Some by (simp add: marshalSessionExtra_bytes)
  qed
qed

lemma container_roundtrip:
  assumes "\<not> (ResumeType d = ResumeUnknown \<and> SessionID d = [])"
    and "length (SessionID d) \<le> 65532"
  shows "unmarshalSessionExtra ([SessionExtraVersion] @ be16 1
       @ encode_field \<lparr>ID = SessionExtraUTLSData, Version = SessionExtraVersion,
           Data = ResumeType d # be16 (of_nat (length (SessionID d))) @ SessionID d\<rparr>)
     = Some (Inr (Some d))"
proof -
  let ?p = "ResumeType d # be16 (of_nat (length (SessionID d))) @ SessionID d"
  let ?f = "\<lparr>ID = SessionExtraUTLSData, Version = SessionExtraVersion, Data = ?p\<rparr>"
  let ?pre = "[SessionExtraVersion] @ be16 1"
  let ?b = "?pre @ encode_field ?f @ []"
  have c: "u16_at ?b 1 = 1"
    using u16_at_append [of "[SessionExtraVersion]" 1 "encode_field ?f @ []"] by simp
  have w: "unmarshalSessionExtra ?b = unmarshalSessionExtra_fields ?b 1 0 (length ?pre)"
    using c by (simp add: unmarshalSessionExtra_unfold)
  have len: "length ?pre + 5 \<le> length ?b" by (simp add: length_encode_field)
  have n: "unat (of_nat (length (Data ?f)) :: uint16) = length (Data ?f)"
    using assms(2) by (intro unat_of_nat_len) simp
  have p: "unmarshalUTLSSessionData ?p = Some (Inr d)"
    using unmarshal_bytes [of "SessionID d" "ResumeType d"] assms(2) by simp
  have "unmarshalSessionExtra_fields ?b 1 0 (length ?pre) = Some (Inr (Some d))"
    unfolding fields_step [OF zero_less_one len] field_reads n
    using p by (simp add: length_encode_field)
  with w show ?thesis by simp
qed


text \<open>
  C5. The example of the spec: the value with mechanism SessionID and the 32 ascending bytes
  0x00..0x1F encodes to the 43 bytes
  \<open>version || count = 1 || id = 0x7001 || field version || length = 35 || payload\<close>,
  the payload being \<open>resume type || length = 32 || session ID\<close>, and these 43 bytes decode
  to the value.
\<close>

theorem C5_example_scenario:
  "marshalSessionExtra (Some \<lparr>ResumeType = ResumeSessionID, SessionID = [0x00, 0x01, 0x02, 0x03, 0x04, 0x05, 0x06, 0x07, 0x08, 0x09, 0x0A, 0x0B, 0x0C, 0x0D, 0x0E, 0x0F, 0x10, 0x11, 0x12, 0x13, 0x14, 0x15, 0x16, 0x17, 0x18, 0x19, 0x1A, 0x1B, 0x1C, 0x1D, 0x1E, 0x1F]\<rparr>)
     = Some (Some ([0x01] @ [0x00, 0x01] @ [0x70, 0x01] @ [0x01] @ [0x00, 0x23]
         @ ([ResumeSessionID] @ [0x00, 0x20] @ [0x00, 0x01, 0x02, 0x03, 0x04, 0x05, 0x06, 0x07, 0x08, 0x09, 0x0A, 0x0B, 0x0C, 0x0D, 0x0E, 0x0F, 0x10, 0x11, 0x12, 0x13, 0x14, 0x15, 0x16, 0x17, 0x18, 0x19, 0x1A, 0x1B, 0x1C, 0x1D, 0x1E, 0x1F])))
   \<and> length ([0x01] @ [0x00, 0x01] @ [0x70, 0x01] @ [0x01] @ [0x00, 0x23]
         @ ([ResumeSessionID] @ [0x00, 0x20] @ [0x00, 0x01, 0x02, 0x03, 0x04, 0x05, 0x06, 0x07, 0x08, 0x09, 0x0A, 0x0B, 0x0C, 0x0D, 0x0E, 0x0F, 0x10, 0x11, 0x12, 0x13, 0x14, 0x15, 0x16, 0x17, 0x18, 0x19, 0x1A, 0x1B, 0x1C, 0x1D, 0x1E, 0x1F] :: byte list)) = 43
   \<and> length ([ResumeSessionID] @ [0x00, 0x20] @ [0x00, 0x01, 0x02, 0x03, 0x04, 0x05, 0x06, 0x07, 0x08, 0x09, 0x0A, 0x0B, 0x0C, 0x0D, 0x0E, 0x0F, 0x10, 0x11, 0x12, 0x13, 0x14, 0x15, 0x16, 0x17, 0x18, 0x19, 0x1A, 0x1B, 0x1C, 0x1D, 0x1E, 0x1F] :: byte list) = 35
   \<and> unmarshalSessionExtra ([0x01] @ [0x00, 0x01] @ [0x70, 0x01] @ [0x01] @ [0x00, 0x23]
         @ ([ResumeSessionID] @ [0x00, 0x20] @ [0x00, 0x01, 0x02, 0x03, 0x04, 0x05, 0x06, 0x07, 0x08, 0x09, 0x0A, 0x0B, 0x0C, 0x0D, 0x0E, 0x0F, 0x10, 0x11, 0x12, 0x13, 0x14, 0x15, 0x16, 0x17, 0x18, 0x19, 0x1A, 0x1B, 0x1C, 0x1D, 0x1E, 0x1F]))
     = Some (Inr (Some \<lparr>ResumeType = ResumeSessionID, SessionID = [0x00, 0x01, 0x02, 0x03, 0x04, 0x05, 0x06, 0x07, 0x08, 0x09, 0x0A, 0x0B, 0x0C, 0x0D, 0x0E, 0x0F, 0x10, 0x11, 0x12, 0x13, 0x14, 0x15, 0x16, 0x17, 0x18, 0x19, 0x1A, 0x1B, 0x1C, 0x1D, 0x1E, 0x1F]\<rparr>))"
proof -
  let ?v = "\<lparr>ResumeType = ResumeSessionID, SessionID = [0x00, 0x01, 0x02, 0x03, 0x04, 0x05, 0x06, 0x07, 0x08, 0x09, 0x0A, 0x0B, 0x0C, 0x0D, 0x0E, 0x0F, 0x10, 0x11, 0x12, 0x13, 0x14, 0x15, 0x16, 0x17, 0x18, 0x19, 0x1A, 0x1B, 0x1C, 0x1D, 0x1E, 0x1F]\<rparr>"
  have ne: "\<not> (ResumeType ?v = ResumeUnknown \<and> SessionID ?v = [])" by simp
  have le: "length (SessionID ?v) \<le> 65532" by simp
  have b: "[SessionExtraVersion] @ be16 1
       @ encode_field \<lparr>ID = SessionExtraUTLSData, Version = SessionExtraVersion,
           Data = ResumeType ?v # be16 (of_nat (length (SessionID ?v))) @ SessionID ?v\<rparr>
     = [0x01] @ [0x00, 0x01] @ [0x70, 0x01] @ [0x01] @ [0x00, 0x23]
         @ ([ResumeSessionID] @ [0x00, 0x20] @ [0x00, 0x01, 0x02, 0x03, 0x04, 0x05, 0x06, 0x07, 0x08, 0x09, 0x0A, 0x0B, 0x0C, 0x0D, 0x0E, 0x0F, 0x10, 0x11, 0x12, 0x13, 0x14, 0x15, 0x16, 0x17, 0x18, 0x19, 0x1A, 0x1B, 0x1C, 0x1D, 0x1E, 0x1F])"
    by (simp add: encode_field_def be16_def SessionExtraVersion_def SessionExtraUTLSData_def)
  show ?thesis
    using marshalSessionExtra_bytes [OF ne] container_roundtrip [OF ne le]
    unfolding b by simp
qed

subsection \<open>The operations on a session state\<close>

lemma not_owned_iff: "(\<not> owned e) = (length e = 0 \<or> e ! 0 \<noteq> SessionExtraVersion)"
  by (cases e) (auto simp: owned_def)

lemma ClearSessionExtraFields_loop_filter:
  "ClearSessionExtraFields_loop newExtra xs = newExtra @ filter (\<lambda>e. \<not> owned e) xs"
  by (induction xs arbitrary: newExtra) (simp_all add: not_owned_iff)

lemma Extra_Clear: "Extra (ClearSessionExtraFields s) = filter (\<lambda>e. \<not> owned e) (Extra s)"
  by (simp add: ClearSessionExtraFields_def ClearSessionExtraFields_loop_filter)

lemma Clear_idem: "ClearSessionExtraFields (ClearSessionExtraFields s) = ClearSessionExtraFields s"
  by (simp add: ClearSessionExtraFields_def ClearSessionExtraFields_loop_filter)

lemma owned_Cons: "owned (SessionExtraVersion # bs)"
  by (simp add: owned_def)

lemma Set_cases:
  "SetSessionExtraFields s data = Some (ClearSessionExtraFields s) \<or>
   (\<exists>bs. SetSessionExtraFields s data =
      Some ((ClearSessionExtraFields s)\<lparr>Extra := Extra (ClearSessionExtraFields s) @ [SessionExtraVersion # bs]\<rparr>))"
  using marshalSessionExtra_cases [of data]
  by (auto simp: SetSessionExtraFields_def Let_def)

text \<open>
  C6. Clearing twice is clearing once; and setting any value (or \<open>nil\<close>) and then clearing
  leaves no slot owned by the codec and exactly the foreign slots of the state before, in
  their order, with the other fields of the state as they were.
\<close>

theorem C6_clear_idempotent_and_frame:
  "ClearSessionExtraFields (ClearSessionExtraFields s) = ClearSessionExtraFields s
   \<and> (\<exists>s'. SetSessionExtraFields s data = Some s'
        \<and> filter owned (Extra (ClearSessionExtraFields s')) = []
        \<and> filter (\<lambda>e. \<not> owned e) (Extra (ClearSessionExtraFields s'))
            = filter (\<lambda>e. \<not> owned e) (Extra s)
        \<and> SessionState.more (ClearSessionExtraFields s') = SessionState.more s)"
proof -
  have "\<exists>s'. SetSessionExtraFields s data = Some s'
        \<and> filter owned (Extra (ClearSessionExtraFields s')) = []
        \<and> filter (\<lambda>e. \<not> owned e) (Extra (ClearSessionExtraFields s'))
            = filter (\<lambda>e. \<not> owned e) (Extra s)
        \<and> SessionState.more (ClearSessionExtraFields s') = SessionState.more s"
    using Set_cases [of s data]
  proof
    assume "SetSessionExtraFields s data = Some (ClearSessionExtraFields s)"
    then show ?thesis
      by (simp add: Extra_Clear) (simp add: ClearSessionExtraFields_def)
  next
    assume "\<exists>bs. SetSessionExtraFields s data =
      Some ((ClearSessionExtraFields s)\<lparr>Extra := Extra (ClearSessionExtraFields s) @ [SessionExtraVersion # bs]\<rparr>)"
    then obtain bs where "SetSessionExtraFields s data =
      Some ((ClearSessionExtraFields s)\<lparr>Extra := Extra (ClearSessionExtraFields s) @ [SessionExtraVersion # bs]\<rparr>)"
      by blast
    then show ?thesis
      by (simp add: Extra_Clear owned_Cons) (simp add: ClearSessionExtraFields_def)
  qed
  then show ?thesis by (simp add: Clear_idem)
qed

text \<open>
  A state with two foreign slots (one of them empty) around two owned ones, set to a ticket
  value and cleared.
\<close>

theorem C6_clear_idempotent_and_frame_witness:
  "\<exists>s'. SetSessionExtraFields \<lparr>Extra = [[0x05, 0x01], [0x01, 0x00, 0x00], [], [0x01]]\<rparr>
           (Some \<lparr>ResumeType = ResumeSessionTicket, SessionID = [0x0A]\<rparr>) = Some s'
      \<and> Extra (ClearSessionExtraFields s') = [[0x05, 0x01], []]"
  using C6_clear_idempotent_and_frame [of "\<lparr>Extra = [[0x05, 0x01], [0x01, 0x00, 0x00], [], [0x01]]\<rparr>"
      "Some \<lparr>ResumeType = ResumeSessionTicket, SessionID = [0x0A]\<rparr>"]
  by (auto simp: Extra_Clear owned_def SessionExtraVersion_def)

text \<open>
  C7. After \<open>ClearSessionExtraFields\<close> and after \<open>SetSessionExtraFields\<close> with any value
  (or \<open>nil\<close>), at most one slot of the state begins with the codec version, however many
  did before.
\<close>

theorem C7_single_owned_slot:
  "length (filter owned (Extra (ClearSessionExtraFields s))) \<le> 1
   \<and> (\<exists>s'. SetSessionExtraFields s data = Some s' \<and> length (filter owned (Extra s')) \<le> 1)"
  using Set_cases [of s data] by (auto simp: Extra_Clear owned_Cons)

text \<open>A state with three owned slots, set to a value: one owned slot, the new one.\<close>

theorem C7_single_owned_slot_witness:
  "\<exists>s'. SetSessionExtraFields \<lparr>Extra = [[0x01], [0x07], [0x01, 0x00, 0x00], [0x01, 0xFF]]\<rparr>
           (Some \<lparr>ResumeType = ResumeSessionID, SessionID = []\<rparr>) = Some s'
      \<and> length (filter owned (Extra s')) \<le> 1"
  using C7_single_owned_slot [of "\<lparr>Extra = [[0x01], [0x07], [0x01, 0x00, 0x00], [0x01, 0xFF]]\<rparr>"
      "Some \<lparr>ResumeType = ResumeSessionID, SessionID = []\<rparr>"]
  by simp

text \<open>
  C10. A state for which \<open>HasSessionExtra\<close> is true and \<open>GetSessionExtraFields\<close> is \<open>nil\<close>:
  its first slot begins with the codec version and fails to decode, its second begins with
  the codec version and decodes to no field.
\<close>

theorem C10_has_without_get:
  "HasSessionExtra \<lparr>Extra = [[0x01], [0x01, 0x00, 0x00]]\<rparr>
   \<and> GetSessionExtraFields \<lparr>Extra = [[0x01], [0x01, 0x00, 0x00]]\<rparr> = Some None
   \<and> unmarshalSessionExtra [0x01] = Some (Inl ExtraTooShort)
   \<and> unmarshalSessionExtra [0x01, 0x00, 0x00] = Some (Inr None)"
proof -
  have a: "unmarshalSessionExtra [0x01] = Some (Inl ExtraTooShort)"
    by (simp add: unmarshalSessionExtra_unfold)
  have b: "unmarshalSessionExtra [0x01, 0x00, 0x00] = Some (Inr None)"
    by (simp add: unmarshalSessionExtra_unfold u16_at_def SessionExtraVersion_def fields_done)
  show ?thesis
    by (simp add: HasSessionExtra_def GetSessionExtraFields_def SessionExtraVersion_def a b)
qed


subsection \<open>The key pool\<close>

lemma init_loop_length: "length (init_loop gen i ks) = length ks"
proof (induction gen i ks rule: init_loop.induct)
  case (1 gen i ks)
  then show ?case
    by (subst init_loop.simps) (auto split: option.splits)
qed

lemma init_loop_nth:
  "j < length ks \<Longrightarrow> init_loop gen i ks ! j =
     (if i \<le> j \<and> j < keyCacheSize then (case gen j of None \<Rightarrow> ks ! j | Some key \<Rightarrow> Some key)
      else ks ! j)"
proof (induction gen i ks rule: init_loop.induct)
  case (1 gen i ks)
  show ?case
  proof (cases "i < keyCacheSize")
    case False
    then show ?thesis by (subst init_loop.simps) auto
  next
    case True
    show ?thesis
    proof (cases "gen i")
      case None
      with True "1.prems" "1.IH"(1) [OF True None] show ?thesis
        by (subst init_loop.simps) (auto simp: le_Suc_eq Suc_le_eq split: option.splits)
    next
      case (Some key)
      with True "1.prems" "1.IH"(2) [OF True Some] show ?thesis
        by (subst init_loop.simps)
           (cases "j = i"; auto simp: nth_list_update split: option.splits)
    qed
  qed
qed

lemma init_fresh:
  "\<not> initialized kc \<Longrightarrow> keys (init kc gen) = map gen [0..<keyCacheSize] \<and> initialized (init kc gen)"
  by (auto simp: init_def init_loop_length init_loop_nth intro!: nth_equalityI split: option.splits)

lemma getRandomKey_fresh:
  assumes "\<not> initialized kc" "\<forall>i. gen i \<noteq> None"
  shows "\<exists>key. getRandomKey w (init kc gen) = Some key
          \<and> gen (IntN w keyCacheSize) = Some key \<and> IntN w keyCacheSize < keyCacheSize"
proof -
  have k: "keys (init kc gen) = map gen [0..<keyCacheSize]" "initialized (init kc gen)"
    using init_fresh [OF assms(1)] by simp_all
  have lt: "IntN w keyCacheSize < keyCacheSize"
    by (simp add: IntN_def keyCacheSize_def)
  have "gen (IntN w keyCacheSize) \<noteq> None"
    using assms(2) by (rule spec)
  then obtain key where "gen (IntN w keyCacheSize) = Some key"
    by blast
  then show ?thesis
    using lt by (simp add: getRandomKey_def k Let_def keyCacheSize_def)
qed

lemma fallback_pair:
  "(\<exists>key. generateECDHEKey_fallback w curveID = (Some key, None))
   \<or> (\<exists>err. generateECDHEKey_fallback w curveID = (None, Some err))"
  by (auto simp: generateECDHEKey_fallback_def split: option.splits sum.splits)

lemma fallback_supported:
  "curveForCurveID curveID = Some curve \<Longrightarrow> GenerateKey w curve = Inr key \<Longrightarrow>
   generateECDHEKey_fallback w curveID = (Some key, None)"
  by (simp add: generateECDHEKey_fallback_def)

lemma fallback_unsupported:
  "generateECDHEKey_fallback w (OtherCurve x) = (None, Some UnsupportedCurve)"
  by (simp add: generateECDHEKey_fallback_def)

text \<open>
  C8. The contract of \<open>generateECDHEKey\<close>, from any state of the caches (initialized or
  not): for a supported curve whose direct generation succeeds the result is a key and no
  error; the result is never \<open>(nil, nil)\<close>; when the slot drawn from the pool is \<open>nil\<close>
  the result is that of the direct generation, so a slot whose generation failed is not
  returned; a pool that was not initialized holds, after the call, the outcomes of its 100
  generations, slot by slot, and where all of them succeed the result is the key of the slot
  drawn, whatever the direct generation would do; and for a curve ID outside the four the
  result is the error "unsupported curve", the caches unchanged.
\<close>

theorem C8_key_pool_acquire:
  "(curveForCurveID curveID = Some curve \<and> GenerateKey w curve = Inr key0 \<longrightarrow>
      (\<exists>key g'. generateECDHEKey w g curveID = ((Some key, None), g')))
   \<and> ((\<exists>key g'. generateECDHEKey w g curveID = ((Some key, None), g'))
        \<or> (\<exists>err g'. generateECDHEKey w g curveID = ((None, Some err), g')))
   \<and> (getCacheForCurveID curveID = Some cache
        \<and> getRandomKey w (snd (generateECDHEKey w g curveID) cache) = None \<longrightarrow>
      fst (generateECDHEKey w g curveID) = generateECDHEKey_fallback w curveID)
   \<and> (getCacheForCurveID curveID = Some cache \<and> \<not> initialized (g cache) \<longrightarrow>
      (\<exists>c. curveForCurveID curveID = Some c
         \<and> keys (snd (generateECDHEKey w g curveID) cache)
             = map (pool_GenerateKey w c) [0..<keyCacheSize]))
   \<and> (getCacheForCurveID curveID = Some cache \<and> curveForCurveID curveID = Some curve
        \<and> \<not> initialized (g cache) \<and> (\<forall>i. pool_GenerateKey w curve i \<noteq> None) \<longrightarrow>
      (\<exists>key g'. generateECDHEKey w g curveID = ((Some key, None), g')
         \<and> pool_GenerateKey w curve (IntN w keyCacheSize) = Some key))
   \<and> generateECDHEKey w g (OtherCurve x) = ((None, Some UnsupportedCurve), g)"
proof (intro conjI impI)
  show "\<exists>key g'. generateECDHEKey w g curveID = ((Some key, None), g')
         \<and> pool_GenerateKey w curve (IntN w keyCacheSize) = Some key"
    if a: "getCacheForCurveID curveID = Some cache \<and> curveForCurveID curveID = Some curve
        \<and> \<not> initialized (g cache) \<and> (\<forall>i. pool_GenerateKey w curve i \<noteq> None)"
  proof -
    from a getRandomKey_fresh [of "g cache" "pool_GenerateKey w curve" w]
    obtain key where "getRandomKey w (init (g cache) (pool_GenerateKey w curve)) = Some key"
      and "pool_GenerateKey w curve (IntN w keyCacheSize) = Some key"
      by blast
    with a show ?thesis
      by (simp add: generateECDHEKey_def Let_def)
  qed
  show "\<exists>c. curveForCurveID curveID = Some c
         \<and> keys (snd (generateECDHEKey w g curveID) cache)
             = map (pool_GenerateKey w c) [0..<keyCacheSize]"
    if "getCacheForCurveID curveID = Some cache \<and> \<not> initialized (g cache)"
    using that
    by (cases curveID)
       (auto simp: generateECDHEKey_def Let_def init_fresh split: option.splits)
  show "\<exists>key g'. generateECDHEKey w g curveID = ((Some key, None), g')"
    if "curveForCurveID curveID = Some curve \<and> GenerateKey w curve = Inr key0"
    using that fallback_supported [of curveID curve w key0]
    by (auto simp: generateECDHEKey_def Let_def split: option.splits)
  show "(\<exists>key g'. generateECDHEKey w g curveID = ((Some key, None), g'))
        \<or> (\<exists>err g'. generateECDHEKey w g curveID = ((None, Some err), g'))"
    using fallback_pair [of w curveID]
    by (auto simp: generateECDHEKey_def Let_def split: option.splits)
  show "fst (generateECDHEKey w g curveID) = generateECDHEKey_fallback w curveID"
    if "getCacheForCurveID curveID = Some cache
        \<and> getRandomKey w (snd (generateECDHEKey w g curveID) cache) = None"
    using that
    by (auto simp: generateECDHEKey_def Let_def split: option.splits if_splits)
  show "generateECDHEKey w g (OtherCurve x) = ((None, Some UnsupportedCurve), g)"
    by (simp add: generateECDHEKey_def fallback_unsupported)
qed

text \<open>
  An initialized pool of two slots, the first \<open>nil\<close>, and a draw of that slot: the key is
  the one generated directly.
\<close>

theorem C8_key_pool_acquire_witness:
  "generateECDHEKey
     \<lparr>pool_GenerateKey = (\<lambda>curve i. None), GenerateKey = (\<lambda>curve. Inr (1000 :: nat)), IntN_draw = 0\<rparr>
     (\<lambda>cache. \<lparr>keys = [None, Some 5], initialized = True\<rparr>) X25519
   = ((Some 1000, None), (\<lambda>cache. \<lparr>keys = [None, Some 5], initialized = True\<rparr>))"
  using C8_key_pool_acquire [of X25519 ecdh_X25519
      "\<lparr>pool_GenerateKey = (\<lambda>curve i. None), GenerateKey = (\<lambda>curve. Inr (1000 :: nat)), IntN_draw = 0\<rparr>"
      1000 "\<lambda>cache. \<lparr>keys = [None, Some 5], initialized = True\<rparr>" keyCacheX25519 0]
  by (simp add: generateECDHEKey_def getRandomKey_def IntN_def generateECDHEKey_fallback_def Let_def)

subsection \<open>The key schedule\<close>

text \<open>
  C9. The shape of the three derivations, in the primitives they call:
  \<open>nextTrafficSecret\<close> is \<open>ExpandLabel\<close> on the secret with the label "traffic upd", the
  empty context and the size of the hash as length; \<open>trafficKey\<close> is the pair of
  \<open>ExpandLabel\<close> with the labels "key" and "iv" and the lengths \<open>keyLen\<close> and
  \<open>aeadNonceLength\<close>; \<open>finishedHash\<close> is the HMAC of the transcript digest under the key
  that \<open>ExpandLabel\<close> derives with the label "finished" and the size of the hash as length,
  and where the HMAC primitive returns as many bytes as the size of its hash, so does
  \<open>finishedHash\<close>.
\<close>

theorem C9_derivation_shape:
  "nextTrafficSecret P c secret
     = ExpandLabel P (hash c) secret ''traffic upd'' [] (hash_Size P (hash c))
   \<and> trafficKey P c secret
     = (ExpandLabel P (hash c) secret ''key'' [] (keyLen c),
        ExpandLabel P (hash c) secret ''iv'' [] (aeadNonceLength P))
   \<and> finishedHash P c baseKey transcript
     = HMAC P (hash c)
         (ExpandLabel P (hash c) baseKey ''finished'' [] (hash_Size P (hash c)))
         (transcript_Sum P transcript)
   \<and> ((\<forall>k m. int (length (HMAC P (hash c) k m)) = hash_Size P (hash c)) \<longrightarrow>
        int (length (finishedHash P c baseKey transcript)) = hash_Size P (hash c))"
  by (simp add: nextTrafficSecret_def trafficKey_def finishedHash_def)

text \<open>
  Primitives that pad or cut to the length asked for, with a hash of 4 bytes: the finished
  hash has 4 bytes.
\<close>

theorem C9_derivation_shape_witness:
  "length (finishedHash
      \<lparr>ExpandLabel = (\<lambda>h secret label context n. take (nat n) (secret @ replicate (nat n) 0)),
       HMAC = (\<lambda>h k m. take 4 (k @ m @ replicate 4 0)),
       hash_Size = (\<lambda>h. 4), transcript_Sum = (\<lambda>t. t), aeadNonceLength = 12\<rparr>
      \<lparr>hash = (), keyLen = 16\<rparr> [0x01, 0x02] [0x03]) = 4
   \<and> finishedHash
      \<lparr>ExpandLabel = (\<lambda>h secret label context n. take (nat n) (secret @ replicate (nat n) 0)),
       HMAC = (\<lambda>h k m. take 4 (k @ m @ replicate 4 0)),
       hash_Size = (\<lambda>h. 4), transcript_Sum = (\<lambda>t. t), aeadNonceLength = 12\<rparr>
      \<lparr>hash = (), keyLen = 16\<rparr> [0x01, 0x02] [0x03] = [0x01, 0x02, 0x00, 0x00]"
  using C9_derivation_shape [of
      "\<lparr>ExpandLabel = (\<lambda>h secret label context n. take (nat n) (secret @ replicate (nat n) 0)),
       HMAC = (\<lambda>h k m. take 4 (k @ m @ replicate 4 0)),
       hash_Size = (\<lambda>h. 4), transcript_Sum = (\<lambda>t. t), aeadNonceLength = 12\<rparr>"
      "\<lparr>hash = (), keyLen = 16\<rparr>" "[]" "[0x01, 0x02]" "[0x03]"]
  by (simp add: numeral_eq_Suc)

end
